theory Spec2Isabelle
  imports Main "HOL-Library.Multiset" "HOL-Library.AList"
begin

section \<open>Errors and outcomes\<close>

text \<open>
  The sentinel errors of the packages \<^verbatim>\<open>common\<close>, \<^verbatim>\<open>queue\<close>, \<^verbatim>\<open>subject\<close> and
  \<^verbatim>\<open>buffer/internal\<close>. \<open>ErrOther\<close> stands for any error value an observer makes up
  itself, \<open>JoinError\<close> for the value \<^verbatim>\<open>errors.Join\<close> wraps its arguments in. A Go
  \<^verbatim>\<open>error\<close> that may be \<^verbatim>\<open>nil\<close> is an \<open>error option\<close>.
\<close>

datatype error =
    ErrNilReceiver
  | ErrEmptyQueue
  | ErrKeyNotExist
  | ErrStop
  | ErrAlreadyClosed
  | ErrOther string
  | JoinError "error list"

text \<open>
  \<^verbatim>\<open>errors.Join\<close> of the standard library: nil arguments are discarded, the result is
  nil when nothing is left, and one error wrapping the others otherwise.
\<close>

definition errors_Join :: "error option list \<Rightarrow> error option" where
  "errors_Join errs =
     (let es = List.map_filter id errs in if es = [] then None else Some (JoinError es))"

text \<open>
  A call that need not come back: it returns, it stays blocked in the state it was
  started in, or it panics.
\<close>

datatype 'a outcome = Returns 'a | Blocks | Panics

text \<open>The zero value \<^verbatim>\<open>*new(T)\<close> of the two types the subjects of this library hold.\<close>

instantiation bool :: default
begin
definition default_bool :: bool where "default_bool = False"
instance ..
end

instantiation int :: default
begin
definition default_int :: int where "default_int = 0"
instance ..
end


section \<open>Subject and Observer\<close>

text \<open>
  An observer is used through its \<^verbatim>\<open>Notify\<close> method only. The method gets the change
  and acts on the part \<open>'w\<close> of the program state that its closure captured (for the
  condition subjects of a Locker the condition variable, for the size subject of a
  Buffer's queue the Buffer's locker field); the subject it is attached to is not part
  of \<open>'w\<close>. A \<^verbatim>\<open>*Subject\<close> is an option: \<open>None\<close> is the nil pointer.
\<close>

type_synonym ('t, 'w) Observer = "'t \<Rightarrow> 'w \<Rightarrow> error option \<times> 'w"

record ('t, 'w) Subject =
  state :: 't
  observers :: "('t, 'w) Observer list"

text \<open>\<^verbatim>\<open>Action\<close> and \<^verbatim>\<open>FromAction\<close>: a nil action gives the nil observer.\<close>

definition FromAction :: "('t, 'w) Observer option \<Rightarrow> ('t, 'w) Observer option" where
  "FromAction action = (case action of None \<Rightarrow> None | Some a \<Rightarrow> Some (\<lambda>change. a change))"

definition New :: "'t \<Rightarrow> ('t, 'w) Subject option" where
  "New v = Some \<lparr>state = v, observers = []\<rparr>"

text \<open>\<^verbatim>\<open>new(Subject[T])\<close>, as the queue allocates its size subject.\<close>

definition new_Subject :: "('t::default, 'w) Subject option" where
  "new_Subject = Some \<lparr>state = default, observers = []\<rparr>"

subsection \<open>The goroutines of NotifyAll\<close>

text \<open>
  \<^verbatim>\<open>NotifyAll\<close> starts one goroutine per observer and waits for all of them. The order
  in which they run is the scheduler's: \<open>interleave\<close> takes the scheduler's choices
  (the \<open>c\<close>-th of the goroutines still waiting runs next, counted modulo their number;
  when the choices are used up the rest runs in list order). Each goroutine runs its
  observer without interruption.
\<close>

function interleave :: "nat list \<Rightarrow> 'a list \<Rightarrow> 'a list" where
  "interleave cs [] = []"
| "interleave [] (g # gs) = g # gs"
| "interleave (c # cs) (g # gs) =
     (let i = c mod length (g # gs)
      in ((g # gs) ! i) # interleave cs (take i (g # gs) @ drop (Suc i) (g # gs)))"
  by pat_completeness auto
termination
  by (relation "measure (\<lambda>(cs, gs). length gs)") auto

text \<open>
  The goroutines in the order they run: each calls \<^verbatim>\<open>o.Notify(state)\<close>; the list of
  what the calls returned is in the order of completion.
\<close>

fun run_observers :: "'t \<Rightarrow> ('t, 'w) Observer list \<Rightarrow> 'w \<Rightarrow> error option list \<times> 'w" where
  "run_observers st [] w = ([], w)"
| "run_observers st (ob # obs) w =
     (let (err, w1) = ob st w;
          (errs, w2) = run_observers st obs w1
      in (err # errs, w2))"

definition Subject_NotifyAll ::
  "nat list \<Rightarrow> ('t, 'w) Subject option \<Rightarrow> 'w \<Rightarrow> error option \<times> 'w" where
  "Subject_NotifyAll sched s w =
     (case s of
        None \<Rightarrow> (Some ErrNilReceiver, w)
      | Some sb \<Rightarrow>
          (let (rets, w1) = run_observers (state sb) (interleave sched (observers sb)) w;
               errs = filter (\<lambda>err. err \<noteq> None) rets
           in (errors_Join errs, w1)))"

subsection \<open>The methods of Subject\<close>

definition Subject_Notify ::
  "nat list \<Rightarrow> 't \<Rightarrow> ('t, 'w) Subject option \<Rightarrow> 'w
     \<Rightarrow> error option \<times> ('t, 'w) Subject option \<times> 'w" where
  "Subject_Notify sched change s w =
     (case s of
        None \<Rightarrow> (Some ErrNilReceiver, None, w)
      | Some sb \<Rightarrow>
          (let sb1 = sb\<lparr>state := change\<rparr>;
               (err, w1) = Subject_NotifyAll sched (Some sb1) w
           in (err, Some sb1, w1)))"

definition Subject_Set ::
  "nat list \<Rightarrow> 't \<Rightarrow> ('t, 'w) Subject option \<Rightarrow> 'w
     \<Rightarrow> error option \<times> ('t, 'w) Subject option \<times> 'w" where
  "Subject_Set sched v s w =
     (case s of
        None \<Rightarrow> (Some ErrNilReceiver, None, w)
      | Some sb \<Rightarrow>
          (let sb1 = sb\<lparr>state := v\<rparr>;
               (err, w1) = Subject_NotifyAll sched (Some sb1) w
           in (err, Some sb1, w1)))"


definition Subject_MustGet :: "('t::default, 'w) Subject option \<Rightarrow> 't" where
  "Subject_MustGet s = (case s of None \<Rightarrow> default | Some sb \<Rightarrow> state sb)"

text \<open>
  \<^verbatim>\<open>Edit\<close> gets a function that changes the state through a pointer; here it maps
  the old state to the new one. A nil function is looked at before a nil receiver.
\<close>

definition Subject_Edit ::
  "nat list \<Rightarrow> ('t \<Rightarrow> 't) option \<Rightarrow> ('t, 'w) Subject option \<Rightarrow> 'w
     \<Rightarrow> error option \<times> ('t, 'w) Subject option \<times> 'w" where
  "Subject_Edit sched fn s w =
     (case fn of
        None \<Rightarrow> (None, s, w)
      | Some f \<Rightarrow>
          (case s of
             None \<Rightarrow> (Some ErrNilReceiver, None, w)
           | Some sb \<Rightarrow>
               (let sb1 = sb\<lparr>state := f (state sb)\<rparr>;
                    (err, w1) = Subject_NotifyAll sched (Some sb1) w
                in (err, Some sb1, w1))))"

definition Subject_Attach ::
  "('t, 'w) Observer option \<Rightarrow> ('t, 'w) Subject option
     \<Rightarrow> error option \<times> ('t, 'w) Subject option" where
  "Subject_Attach ob s =
     (case ob of
        None \<Rightarrow> (None, s)
      | Some obs \<Rightarrow>
          (case s of
             None \<Rightarrow> (Some ErrNilReceiver, None)
           | Some sb \<Rightarrow> (None, Some (sb\<lparr>observers := observers sb @ [obs]\<rparr>))))"



section \<open>Queue\<close>

text \<open>
  The queue is a singly linked list of nodes reached through the pointers \<^verbatim>\<open>front\<close>
  and \<^verbatim>\<open>back\<close>; \<^verbatim>\<open>back.next = node\<close> writes to a node that the chain from
  \<^verbatim>\<open>front\<close> reaches too. The nodes therefore live in a store: \<open>heap\<close> is the list
  of the nodes allocated for this queue so far, a pointer is an index into it (an
  option: \<open>None\<close> is nil), and \<^verbatim>\<open>&queue_node{...}\<close> appends a node and yields its
  index. Nodes that are no longer reachable stay in the store as garbage. A pointer
  that is not nil always refers to an allocated node in Go; \<open>queue_ok\<close> below says so
  for the model and is shown to hold.

  \<^verbatim>\<open>back\<close> is written \<open>back'\<close> and \<^verbatim>\<open>size\<close> is written \<open>size_sbj\<close> (both names are
  taken in Isabelle). The size is a Go \<^verbatim>\<open>int\<close> (64 bits); it counts nodes that each
  occupy memory, so it stays far from the wrap-around and is an \<open>int\<close> here.
\<close>

record 'v queue_node =
  node_value :: 'v
  node_next :: "nat option"

record ('v, 'w) Queue =
  front :: "nat option"
  back' :: "nat option"
  size_sbj :: "(int, 'w) Subject option"
  heap :: "'v queue_node list"

text \<open>\<^verbatim>\<open>new(Queue[T])\<close>: the documented way to make an empty queue.\<close>

definition new_Queue :: "('v, 'w) Queue option" where
  "new_Queue = Some \<lparr>front = None, back' = None, size_sbj = None, heap = []\<rparr>"

definition Queue_Enqueue ::
  "nat list \<Rightarrow> 'v \<Rightarrow> ('v, 'w) Queue option \<Rightarrow> 'w
     \<Rightarrow> error option \<times> ('v, 'w) Queue option \<times> 'w" where
  "Queue_Enqueue sched v queue w =
     (case queue of
        None \<Rightarrow> (Some ErrNilReceiver, None, w)
      | Some q0 \<Rightarrow>
          (let node = length (heap q0);
               q1 = q0\<lparr>heap := heap q0 @ [\<lparr>node_value = v, node_next = None\<rparr>]\<rparr>;
               q2 = (case back' q1 of
                       None \<Rightarrow> q1\<lparr>front := Some node\<rparr>
                     | Some b \<Rightarrow>
                         q1\<lparr>heap := (heap q1)[b := (heap q1 ! b)\<lparr>node_next := Some node\<rparr>]\<rparr>);
               q3 = q2\<lparr>back' := Some node\<rparr>;
               q4 = (if size_sbj q3 = None then q3\<lparr>size_sbj := new_Subject\<rparr> else q3);
               (err, sz, w1) = Subject_Edit sched (Some (\<lambda>size. size + 1)) (size_sbj q4) w
           in (None, Some (q4\<lparr>size_sbj := sz\<rparr>), w1)))"

text \<open>
  \<^verbatim>\<open>EnqueueMany\<close> calls \<^verbatim>\<open>Enqueue\<close> for each value in turn; each call has a
  notification of its own, so the loop takes one schedule per call (the empty one when
  the list of schedules is used up).
\<close>

fun enqueue_each ::
  "nat list list \<Rightarrow> 'v list \<Rightarrow> ('v, 'w) Queue option \<Rightarrow> 'w \<Rightarrow> ('v, 'w) Queue option \<times> 'w" where
  "enqueue_each scheds [] queue w = (queue, w)"
| "enqueue_each scheds (v # vs) queue w =
     (let (err, queue1, w1) = Queue_Enqueue (case scheds of [] \<Rightarrow> [] | s # ss \<Rightarrow> s) v queue w
      in enqueue_each (tl scheds) vs queue1 w1)"

definition Queue_EnqueueMany ::
  "nat list list \<Rightarrow> 'v list \<Rightarrow> ('v, 'w) Queue option \<Rightarrow> 'w
     \<Rightarrow> error option \<times> ('v, 'w) Queue option \<times> 'w" where
  "Queue_EnqueueMany scheds vs queue w =
     (if length vs = 0 then (None, queue, w)
      else if queue = None then (Some ErrNilReceiver, queue, w)
      else (let (queue1, w1) = enqueue_each scheds vs queue w in (None, queue1, w1)))"

definition Queue_Dequeue ::
  "nat list \<Rightarrow> ('v, 'w) Queue option \<Rightarrow> 'w
     \<Rightarrow> (error + 'v) \<times> ('v, 'w) Queue option \<times> 'w" where
  "Queue_Dequeue sched queue w =
     (case queue of
        None \<Rightarrow> (Inl ErrNilReceiver, None, w)
      | Some q0 \<Rightarrow>
          (case front q0 of
             None \<Rightarrow> (Inl ErrEmptyQueue, Some q0, w)
           | Some toRemove \<Rightarrow>
               (let q1 = (case node_next (heap q0 ! toRemove) of
                            None \<Rightarrow> q0\<lparr>front := None, back' := None\<rparr>
                          | Some n \<Rightarrow> q0\<lparr>front := Some n\<rparr>);
                    (err, sz, w1) = Subject_Edit sched (Some (\<lambda>size. size - 1)) (size_sbj q1) w
                in (Inr (node_value (heap q1 ! toRemove)), Some (q1\<lparr>size_sbj := sz\<rparr>), w1))))"

definition Queue_Peek :: "('v, 'w) Queue option \<Rightarrow> error + 'v" where
  "Queue_Peek queue =
     (case queue of
        None \<Rightarrow> Inl ErrNilReceiver
      | Some q0 \<Rightarrow>
          (case front q0 of
             None \<Rightarrow> Inl ErrEmptyQueue
           | Some f \<Rightarrow> Inr (node_value (heap q0 ! f))))"

definition Queue_Size :: "('v, 'w) Queue option \<Rightarrow> int" where
  "Queue_Size queue = (case queue of None \<Rightarrow> 0 | Some q0 \<Rightarrow> Subject_MustGet (size_sbj q0))"

definition Queue_Reset :: "('v, 'w) Queue option \<Rightarrow> ('v, 'w) Queue option" where
  "Queue_Reset queue =
     (case queue of
        None \<Rightarrow> None
      | Some q0 \<Rightarrow>
          (if front q0 = None then Some q0
           else Some (q0\<lparr>front := None, back' := None, size_sbj := None\<rparr>)))"

definition Queue_ObserveSize ::
  "(int, 'w) Observer option \<Rightarrow> ('v, 'w) Queue option
     \<Rightarrow> error option \<times> ('v, 'w) Queue option" where
  "Queue_ObserveSize fn queue =
     (case fn of
        None \<Rightarrow> (None, queue)
      | Some f \<Rightarrow>
          (case queue of
             None \<Rightarrow> (Some ErrNilReceiver, None)
           | Some q0 \<Rightarrow>
               (let ob = FromAction fn;
                    q1 = (if size_sbj q0 = None then q0\<lparr>size_sbj := new_Subject\<rparr> else q0);
                    (err, sz) = Subject_Attach ob (size_sbj q1)
                in (None, Some (q1\<lparr>size_sbj := sz\<rparr>)))))"

subsection \<open>What the pointers of a queue describe\<close>

text \<open>
  \<open>chain h p as xs\<close>: following \<^verbatim>\<open>next\<close> from the pointer \<open>p\<close> visits exactly the
  nodes at the addresses \<open>as\<close>, which hold the values \<open>xs\<close>, and ends in nil.
\<close>

fun chain :: "'v queue_node list \<Rightarrow> nat option \<Rightarrow> nat list \<Rightarrow> 'v list \<Rightarrow> bool" where
  "chain h p [] xs = (p = None \<and> xs = [])"
| "chain h p (a # as) [] = False"
| "chain h p (a # as) (x # xs) =
     (p = Some a \<and> a < length h \<and> node_value (h ! a) = x \<and> chain h (node_next (h ! a)) as xs)"

text \<open>
  The invariant of the data model, for a queue that holds the elements \<open>xs\<close> in the
  nodes \<open>as\<close>: \<^verbatim>\<open>front\<close> starts the chain of the live nodes (so it is nil exactly
  when there is none), \<^verbatim>\<open>back\<close> is the last node of that chain and nil when the chain
  is empty, no node is linked twice, and the size subject holds the number of elements.
\<close>

definition queue_ok :: "('v, 'w) Queue \<Rightarrow> nat list \<Rightarrow> 'v list \<Rightarrow> bool" where
  "queue_ok q0 as xs =
     (chain (heap q0) (front q0) as xs \<and> distinct as \<and>
      (front q0 = None) = (xs = []) \<and>
      back' q0 = (if as = [] then None else Some (last as)) \<and>
      Subject_MustGet (size_sbj q0) = int (length xs))"

text \<open>
  Drivers: \<open>n\<close> calls of \<^verbatim>\<open>Dequeue\<close> in a row, with what each returned; and a
  sequence of any of the operations that change a queue, with the list of elements the
  Data Model says the queue then holds (\<open>spec_contents\<close>, written from the
  specification: enqueueing appends, dequeueing drops the first, reset empties).
\<close>

fun dequeue_n ::
  "nat list list \<Rightarrow> nat \<Rightarrow> ('v, 'w) Queue option \<Rightarrow> 'w
     \<Rightarrow> (error + 'v) list \<times> ('v, 'w) Queue option \<times> 'w" where
  "dequeue_n scheds 0 queue w = ([], queue, w)"
| "dequeue_n scheds (Suc n) queue w =
     (let (r, queue1, w1) = Queue_Dequeue (case scheds of [] \<Rightarrow> [] | s # ss \<Rightarrow> s) queue w;
          (rs, queue2, w2) = dequeue_n (tl scheds) n queue1 w1
      in (r # rs, queue2, w2))"

datatype ('v, 'w) queue_op =
    OpEnqueue "nat list" 'v
  | OpEnqueueMany "nat list list" "'v list"
  | OpDequeue "nat list"
  | OpReset
  | OpObserveSize "(int, 'w) Observer option"

fun queue_step :: "('v, 'w) queue_op \<Rightarrow> ('v, 'w) Queue option \<times> 'w \<Rightarrow> ('v, 'w) Queue option \<times> 'w" where
  "queue_step (OpEnqueue sched v) (queue, w) = snd (Queue_Enqueue sched v queue w)"
| "queue_step (OpEnqueueMany scheds vs) (queue, w) = snd (Queue_EnqueueMany scheds vs queue w)"
| "queue_step (OpDequeue sched) (queue, w) = snd (Queue_Dequeue sched queue w)"
| "queue_step OpReset (queue, w) = (Queue_Reset queue, w)"
| "queue_step (OpObserveSize fn) (queue, w) = (snd (Queue_ObserveSize fn queue), w)"

fun spec_contents :: "('v, 'w) queue_op \<Rightarrow> 'v list \<Rightarrow> 'v list" where
  "spec_contents (OpEnqueue sched v) xs = xs @ [v]"
| "spec_contents (OpEnqueueMany scheds vs) xs = xs @ vs"
| "spec_contents (OpDequeue sched) xs = tl xs"
| "spec_contents OpReset xs = []"
| "spec_contents (OpObserveSize fn) xs = xs"



section \<open>Locker\<close>

text \<open>
  The condition variable is seen through the pulses it was given, oldest first; the
  observer that \<^verbatim>\<open>SetSubject\<close> attaches to a condition's subject adds one. The Go map
  \<^verbatim>\<open>subjects\<close> is an association list with one entry per key; its values are
  pointers to subjects.
\<close>

datatype pulse = Broadcast | Signal

record 'k Locker =
  cond :: "pulse list"
  subjects :: "('k \<times> (bool, pulse list) Subject option) list"

definition NewLocker :: "'k Locker" where
  "NewLocker = \<lparr>cond = [], subjects = []\<rparr>"

text \<open>
  \<^verbatim>\<open>SetSubject\<close> uses its receiver without a nil check; it is called on the Locker that
  \<^verbatim>\<open>NewLocker\<close> has just returned.
\<close>

definition Locker_SetSubject :: "'k \<Rightarrow> bool \<Rightarrow> bool \<Rightarrow> 'k Locker \<Rightarrow> 'k Locker" where
  "Locker_SetSubject key v broadcast l =
     (let subject = New v;
          fn = (if broadcast then (\<lambda>b c. (None, c @ [Broadcast]))
                else (\<lambda>b c. (None, c @ [Signal])));
          ob = FromAction (Some fn);
          (err, subject1) = Subject_Attach ob subject
      in l\<lparr>subjects := AList.update key subject1 (subjects l)\<rparr>)"

definition Locker_ChangeValue ::
  "nat list \<Rightarrow> 'k \<Rightarrow> bool \<Rightarrow> 'k Locker option \<Rightarrow> error option \<times> 'k Locker option" where
  "Locker_ChangeValue sched key v l =
     (case l of
        None \<Rightarrow> (Some ErrNilReceiver, None)
      | Some l0 \<Rightarrow>
          (case map_of (subjects l0) key of
             None \<Rightarrow> (Some ErrKeyNotExist, Some l0)
           | Some subject \<Rightarrow>
               (let (err, subject1, c1) = Subject_Set sched v subject (cond l0)
                in (None, Some (l0\<lparr>subjects := AList.update key subject1 (subjects l0),
                                   cond := c1\<rparr>)))))"

text \<open>
  \<^verbatim>\<open>hasFalse\<close>: the copy of the conditions, and whether at least one of them is false.
\<close>

fun any_false :: "('k \<times> bool) list \<Rightarrow> bool" where
  "any_false [] = False"
| "any_false ((key, v) # m) = (if \<not> v then True else any_false m)"

definition hasFalse :: "'k Locker \<Rightarrow> ('k \<times> bool) list \<times> bool" where
  "hasFalse l =
     (let map_copy = map (\<lambda>(key, subject). (key, Subject_MustGet subject)) (subjects l)
      in (map_copy, any_false map_copy))"

definition Locker_Get :: "'k \<Rightarrow> 'k Locker option \<Rightarrow> bool \<times> error option" where
  "Locker_Get key l =
     (case l of
        None \<Rightarrow> (False, Some ErrNilReceiver)
      | Some l0 \<Rightarrow>
          (case map_of (subjects l0) key of
             Some subject \<Rightarrow> (Subject_MustGet subject, None)
           | None \<Rightarrow> (False, Some ErrKeyNotExist)))"

text \<open>
  \<^verbatim>\<open>DoFunc\<close> loops: it takes the copy of the conditions, leaves the loop when
  \<^verbatim>\<open>hasFalse\<close> says so, and otherwise sleeps in \<^verbatim>\<open>cond.Wait()\<close>. What the Locker
  looks like each time \<^verbatim>\<open>Wait\<close> returns is up to the other goroutines: \<open>wakes\<close> is
  the list of these states in order. When the list is used up and the loop has not
  been left, the call is asleep in \<^verbatim>\<open>Wait\<close> for good: \<open>Blocks\<close>. The function \<open>f\<close>
  gets the copy and acts on the state \<open>'w\<close> its closure captured.
\<close>

fun DoFunc_loop :: "'k Locker \<Rightarrow> 'k Locker list \<Rightarrow> ('k \<times> bool) list option" where
  "DoFunc_loop l [] = (let (map_copy, ok) = hasFalse l in if ok then Some map_copy else None)"
| "DoFunc_loop l (l1 # wakes) =
     (let (map_copy, ok) = hasFalse l in if ok then Some map_copy else DoFunc_loop l1 wakes)"

definition Locker_DoFunc ::
  "(('k \<times> bool) list \<Rightarrow> 'w \<Rightarrow> error option \<times> 'w) \<Rightarrow> 'k Locker option \<Rightarrow> 'k Locker list \<Rightarrow> 'w
     \<Rightarrow> (error option \<times> 'w) outcome" where
  "Locker_DoFunc f l wakes w =
     (case l of
        None \<Rightarrow> Returns (Some ErrNilReceiver, w)
      | Some l0 \<Rightarrow>
          (case DoFunc_loop l0 wakes of
             None \<Rightarrow> Blocks
           | Some map_copy \<Rightarrow> Returns (f map_copy w)))"


section \<open>Buffer\<close>

datatype BufferCondition = IsEmpty | IsRunning

text \<open>
  Both channels are unbuffered. A channel is its \<^verbatim>\<open>closed\<close> flag; whether the other
  side of a hand-off is there is an input of the operation, since it is up to the other
  goroutines. A \<^verbatim>\<open>chan\<close> field is an option: \<open>None\<close> is the nil channel.
\<close>

record chan =
  closed :: bool

definition make_chan :: "chan option" where
  "make_chan = Some \<lparr>closed = False\<rparr>"

text \<open>
  \<^verbatim>\<open>ch <- msg\<close>: blocks for ever on the nil channel, panics on a closed one, and
  otherwise returns once a receiver has taken the value.
\<close>

definition chan_send :: "chan option \<Rightarrow> bool \<Rightarrow> unit outcome" where
  "chan_send ch receiver_ready =
     (case ch of
        None \<Rightarrow> Blocks
      | Some c \<Rightarrow> if closed c then Panics else if receiver_ready then Returns () else Blocks)"

text \<open>
  \<^verbatim>\<open>select { case ch <- msg: ... default: ... }\<close>: the send is taken when a receiver
  is waiting (\<open>Returns True\<close>), the default otherwise; a nil channel is never ready, a
  closed one panics.
\<close>

definition chan_try_send :: "chan option \<Rightarrow> bool \<Rightarrow> bool outcome" where
  "chan_try_send ch receiver_ready =
     (case ch of
        None \<Rightarrow> Returns False
      | Some c \<Rightarrow> if closed c then Panics else Returns receiver_ready)"

text \<open>
  \<^verbatim>\<open>msg, ok := <-ch\<close>: blocks for ever on the nil channel; on a closed channel
  \<^verbatim>\<open>ok\<close> is false (\<open>None\<close>); otherwise the value a sender hands over, if there is
  one.
\<close>

definition chan_recv :: "chan option \<Rightarrow> 'v option \<Rightarrow> 'v option outcome" where
  "chan_recv ch offered =
     (case ch of
        None \<Rightarrow> Blocks
      | Some c \<Rightarrow>
          if closed c then Returns None
          else (case offered of None \<Rightarrow> Blocks | Some msg \<Rightarrow> Returns (Some msg)))"

datatype goroutine = listenForIncomingMessages | sendMessagesFromBuffer

record 'v Buffer =
  q :: "('v, BufferCondition Locker option) Queue option"
  sendTo :: "chan option"
  receiveFrom :: "chan option"
  wg :: int
  locker :: "BufferCondition Locker option"

text \<open>\<^verbatim>\<open>new(Buffer[T])\<close>: the documented way to make a Buffer.\<close>

definition new_Buffer :: "'v Buffer" where
  "new_Buffer = \<lparr>q = None, sendTo = None, receiveFrom = None, wg = 0, locker = None\<rparr>"

text \<open>
  The closure \<^verbatim>\<open>Start\<close> hands to \<^verbatim>\<open>ObserveSize\<close>. It reads \<^verbatim>\<open>b.locker\<close> when it is
  called, so the state it acts on is that field. The subject of a condition has the one
  observer \<^verbatim>\<open>SetSubject\<close> gave it, so its notification has one goroutine and needs no
  scheduler's choice.
\<close>

definition size_observer :: "(int, BufferCondition Locker option) Observer" where
  "size_observer val l = Locker_ChangeValue [] IsEmpty (val = 0) l"

text \<open>
  \<^verbatim>\<open>Start\<close> returns its error, leaves the Buffer changed, and starts goroutines: the
  third component lists the \<^verbatim>\<open>go\<close> statements it ran.
\<close>

definition Buffer_Start :: "'v Buffer option \<Rightarrow> error option \<times> 'v Buffer option \<times> goroutine list" where
  "Buffer_Start b =
     (case b of
        None \<Rightarrow> (Some ErrNilReceiver, None, [])
      | Some b0 \<Rightarrow>
          if locker b0 \<noteq> None then (None, Some b0, [])
          else
            (let b1 = b0\<lparr>locker := Some (Locker_SetSubject IsRunning True True
                                          (Locker_SetSubject IsEmpty True True NewLocker))\<rparr>;
                 b2 = b1\<lparr>q := new_Queue\<rparr>;
                 (err, queue1) = Queue_ObserveSize (Some size_observer) (q b2);
                 b3 = b2\<lparr>q := queue1\<rparr>
             in if err \<noteq> None then (err, Some b3, [])
                else
                  (let b4 = b3\<lparr>sendTo := make_chan, receiveFrom := make_chan\<rparr>;
                       b5 = b4\<lparr>wg := wg b4 + 2\<rparr>
                   in (None, Some b5, [listenForIncomingMessages, sendMessagesFromBuffer]))))"

text \<open>
  One round of the loop of \<^verbatim>\<open>listenForIncomingMessages\<close>: the message received from
  \<^verbatim>\<open>sendTo\<close> is enqueued; the size subject's observers act on \<^verbatim>\<open>b.locker\<close>.
\<close>

definition listen_round :: "nat list \<Rightarrow> 'v \<Rightarrow> 'v Buffer \<Rightarrow> 'v Buffer" where
  "listen_round sched msg b0 =
     (let (err, queue1, l1) = Queue_Enqueue sched msg (q b0) (locker b0)
      in b0\<lparr>q := queue1, locker := l1\<rparr>)"

definition Buffer_Reset :: "'v Buffer option \<Rightarrow> 'v Buffer option" where
  "Buffer_Reset b =
     (case b of
        None \<Rightarrow> None
      | Some b0 \<Rightarrow> if q b0 = None then Some b0 else Some (b0\<lparr>q := Queue_Reset (q b0)\<rparr>))"

text \<open>
  \<^verbatim>\<open>sendSingleMessage\<close> holds no lock of its own: \<^verbatim>\<open>Peek\<close> takes and releases the
  queue's lock, and \<^verbatim>\<open>Dequeue\<close> takes it again. In between, the other goroutines
  that use the queue may run: the inbound loop enqueues, and any caller may call
  \<^verbatim>\<open>Buffer.Reset\<close>. \<open>env\<close> lists what they do between the \<^verbatim>\<open>Peek\<close> and the
  \<^verbatim>\<open>Dequeue\<close> of one call, in order (the send in between does not touch the
  queue). Each \<^verbatim>\<open>Enqueue\<close>, \<^verbatim>\<open>Dequeue\<close> and \<^verbatim>\<open>Reset\<close> runs under the queue's lock
  as a whole.
\<close>

datatype 'v interference = ConcurrentReset | ConcurrentEnqueue "nat list" 'v

fun interfere :: "'v interference list \<Rightarrow> 'v Buffer \<Rightarrow> 'v Buffer" where
  "interfere [] b0 = b0"
| "interfere (ConcurrentReset # env) b0 =
     interfere env (case Buffer_Reset (Some b0) of None \<Rightarrow> b0 | Some b1 \<Rightarrow> b1)"
| "interfere (ConcurrentEnqueue sched msg # env) b0 = interfere env (listen_round sched msg b0)"

text \<open>The messages the inbound loop enqueues among these steps.\<close>

fun enqueued :: "'v interference list \<Rightarrow> 'v list" where
  "enqueued [] = []"
| "enqueued (ConcurrentReset # env) = enqueued env"
| "enqueued (ConcurrentEnqueue sched msg # env) = msg # enqueued env"

text \<open>
  Besides its two results and the Buffer it leaves, \<open>sendSingleMessage\<close> yields the
  message that went into \<^verbatim>\<open>receiveFrom\<close>, if one did.
\<close>

definition sendSingleMessage ::
  "nat list \<Rightarrow> 'v interference list \<Rightarrow> bool \<Rightarrow> 'v Buffer
     \<Rightarrow> ((bool \<times> bool) \<times> 'v Buffer \<times> 'v option) outcome" where
  "sendSingleMessage sched env receiver_ready b0 =
     (case Queue_Peek (q b0) of
        Inl err \<Rightarrow> Returns ((True, True), b0, None)
      | Inr msg \<Rightarrow>
          (let b1 = interfere env b0
           in (case chan_try_send (receiveFrom b1) receiver_ready of
                 Panics \<Rightarrow> Panics
               | Blocks \<Rightarrow> Blocks
               | Returns False \<Rightarrow> Returns ((False, False), b1, None)
               | Returns True \<Rightarrow>
                   (let (r, queue1, l1) = Queue_Dequeue sched (q b1) (locker b1);
                        b2 = b1\<lparr>q := queue1, locker := l1\<rparr>
                    in (case r of
                          Inl err \<Rightarrow> Returns ((True, False), b2, Some msg)
                        | Inr v \<Rightarrow> Returns ((False, True), b2, Some msg))))))"

definition Buffer_Send :: "'v \<Rightarrow> 'v Buffer option \<Rightarrow> bool \<Rightarrow> error option outcome" where
  "Buffer_Send msg b receiver_ready =
     (case b of
        None \<Rightarrow> Returns (Some ErrNilReceiver)
      | Some b0 \<Rightarrow>
          if sendTo b0 = None then Returns (Some ErrAlreadyClosed)
          else (case chan_send (sendTo b0) receiver_ready of
                  Returns u \<Rightarrow> Returns None
                | Blocks \<Rightarrow> Blocks
                | Panics \<Rightarrow> Panics))"

definition Buffer_Receive :: "'v Buffer option \<Rightarrow> 'v option \<Rightarrow> (error + 'v) outcome" where
  "Buffer_Receive b offered =
     (case b of
        None \<Rightarrow> Returns (Inl ErrNilReceiver)
      | Some b0 \<Rightarrow>
          if receiveFrom b0 = None then Returns (Inl ErrAlreadyClosed)
          else (case chan_recv (receiveFrom b0) offered of
                  Returns None \<Rightarrow> Returns (Inl ErrAlreadyClosed)
                | Returns (Some msg) \<Rightarrow> Returns (Inr msg)
                | Blocks \<Rightarrow> Blocks
                | Panics \<Rightarrow> Panics))"



subsection \<open>A started Buffer\<close>

text \<open>
  The state of a Buffer between \<^verbatim>\<open>Start\<close> and its teardown, for a queue that holds
  \<open>xs\<close>: the queue is in order, its size subject has the observer \<^verbatim>\<open>Start\<close>
  attached and no other, and the condition \<^verbatim>\<open>IsEmpty\<close> of the locker is registered
  and holds whether \<open>xs\<close> is empty.
\<close>

definition buffer_ok :: "'v Buffer \<Rightarrow> 'v list \<Rightarrow> bool" where
  "buffer_ok b0 xs =
     (\<exists>q0 as sz l0 s.
        q b0 = Some q0 \<and> queue_ok q0 as xs \<and>
        size_sbj q0 = Some sz \<and> observers sz = [size_observer] \<and>
        locker b0 = Some l0 \<and> map_of (subjects l0) IsEmpty = Some (Some s) \<and>
        state s = (xs = []))"






section \<open>Example inputs\<close>




definition ops_ex :: "(int, unit) queue_op list" where
  "ops_ex = [OpEnqueue [] 1, OpEnqueue [] 2, OpDequeue [], OpReset, OpDequeue [],
             OpEnqueueMany [] [3, 4, 5], OpDequeue []]"



text \<open>
  A Locker with both conditions of the Buffer true, and one where the Buffer has stopped;
  a function for \<^verbatim>\<open>DoFunc\<close> that records the copy it is called with; a Buffer
  just started, and the same after its inbound loop has taken 10 and 20.
\<close>

definition locker_running :: "BufferCondition Locker" where
  "locker_running =
     Locker_SetSubject IsRunning True True (Locker_SetSubject IsEmpty True True NewLocker)"

definition locker_stopped :: "BufferCondition Locker" where
  "locker_stopped =
     Locker_SetSubject IsRunning False True (Locker_SetSubject IsEmpty True True NewLocker)"

definition record_snapshot ::
  "(BufferCondition \<times> bool) list \<Rightarrow> (BufferCondition \<times> bool) list list
     \<Rightarrow> error option \<times> (BufferCondition \<times> bool) list list" where
  "record_snapshot m calls = (if m = [] then Some ErrStop else None, calls @ [m])"

definition buffer_started :: "int Buffer" where
  "buffer_started =
     (case fst (snd (Buffer_Start (Some new_Buffer))) of None \<Rightarrow> new_Buffer | Some b1 \<Rightarrow> b1)"

definition buffer_two :: "int Buffer" where
  "buffer_two = listen_round [] 20 (listen_round [] 10 buffer_started)"


section \<open>Properties of Subject\<close>

text \<open>
  C10. \<^verbatim>\<open>Subject.Notify\<close> and \<^verbatim>\<open>Subject.Set\<close> are the same function: for every
  subject, the nil one too, every value, every schedule of the observers' goroutines
  and every state the observers act on, both return the same error and leave the same
  subject and the same state behind. A subject attached as an observer of another one
  therefore takes each change as a plain \<^verbatim>\<open>Set\<close>.
\<close>

theorem Notify_eq_Set:
  "Subject_Notify sched v s w = Subject_Set sched v s w"
  by (simp add: Subject_Notify_def Subject_Set_def)


text \<open>Every order of completion is one the scheduler can choose.\<close>

lemma interleave_Cons:
  "gs \<noteq> [] \<Longrightarrow> i < length gs \<Longrightarrow>
   interleave (i # cs) gs = (gs ! i) # interleave cs (take i gs @ drop (Suc i) gs)"
  by (cases gs) (simp_all add: Let_def)

lemma interleave_any_order:
  "mset ys = mset gs \<Longrightarrow> \<exists>cs. interleave cs gs = ys"
proof (induction ys arbitrary: gs)
  case Nil
  then show ?case by simp
next
  case (Cons y ys)
  then have "y \<in> set gs" by (metis list.set_intros(1) set_mset_mset)
  then obtain i where i: "i < length gs" "gs ! i = y" by (auto simp: in_set_conv_nth)
  let ?rest = "take i gs @ drop (Suc i) gs"
  have "mset gs = add_mset y (mset ?rest)"
    using id_take_nth_drop [OF i(1)] i(2) by (metis mset.simps(2) mset_append union_mset_add_mset_right)
  with Cons.prems have "mset ys = mset ?rest" by simp
  from Cons.IH [OF this] obtain cs where "interleave cs ?rest = ys" by blast
  moreover from i have "gs \<noteq> []" by auto
  ultimately have "interleave (i # cs) gs = y # ys"
    using i interleave_Cons [of gs i cs] by simp
  then show ?case by blast
qed


lemma length_run_observers: "length (fst (run_observers st obs w)) = length obs"
  by (induction obs arbitrary: w) (simp_all add: split_beta Let_def)



















section \<open>Properties of Queue\<close>

lemma Edit_Some:
  "Subject_Edit sched (Some f) (Some sb) w =
     (fst (Subject_NotifyAll sched (Some (sb\<lparr>state := f (state sb)\<rparr>)) w),
      Some (sb\<lparr>state := f (state sb)\<rparr>),
      snd (Subject_NotifyAll sched (Some (sb\<lparr>state := f (state sb)\<rparr>)) w))"
  by (simp add: Subject_Edit_def split_beta Let_def)

lemma MustGet_Edit:
  "s \<noteq> None \<Longrightarrow> Subject_MustGet (fst (snd (Subject_Edit sched (Some f) s w))) = f (Subject_MustGet s)"
  by (cases s) (simp_all add: Edit_Some Subject_MustGet_def)

lemma MustGet_new_Subject: "Subject_MustGet (new_Subject :: (int, 'w) Subject option) = 0"
  by (simp add: Subject_MustGet_def new_Subject_def default_int_def)

lemma new_Subject_not_None: "new_Subject \<noteq> None"
  by (simp add: new_Subject_def)

lemma MustGet_None: "Subject_MustGet (None :: (int, 'w) Subject option) = 0"
  by (simp add: Subject_MustGet_def default_int_def)

lemma chain_length: "chain h p as xs \<Longrightarrow> length as = length xs"
  by (induction h p as xs rule: chain.induct) auto

lemma chain_bound: "chain h p as xs \<Longrightarrow> a \<in> set as \<Longrightarrow> a < length h"
  by (induction h p as xs rule: chain.induct) auto

lemma chain_alloc: "chain h p as xs \<Longrightarrow> chain (h @ [n]) p as xs"
  by (induction h p as xs rule: chain.induct) (auto simp: nth_append)

lemma chain_update_other: "chain h p as xs \<Longrightarrow> b \<notin> set as \<Longrightarrow> chain (h[b := n]) p as xs"
  by (induction h p as xs rule: chain.induct) auto

lemma chain_link_last:
  "chain h p as xs \<Longrightarrow> as \<noteq> [] \<Longrightarrow> distinct as \<Longrightarrow>
   chain ((h @ [\<lparr>node_value = v, node_next = None\<rparr>])
            [last as := ((h @ [\<lparr>node_value = v, node_next = None\<rparr>]) ! last as)\<lparr>node_next := Some (length h)\<rparr>])
     p (as @ [length h]) (xs @ [v])"
proof (induction h p as xs rule: chain.induct)
  case (3 h p a as x xs)
  show ?case
  proof (cases "as = []")
    case True
    with 3 show ?thesis by (cases xs) (auto simp: nth_append)
  next
    case False
    with 3 have "a \<noteq> last as" by auto
    with 3 False show ?thesis by (auto simp: nth_append)
  qed
qed simp_all

lemma Enqueue_ok:
  assumes "queue_ok q0 as xs"
  shows "\<exists>q1 w1. Queue_Enqueue sched v (Some q0) w = (None, Some q1, w1) \<and>
           queue_ok q1 (as @ [length (heap q0)]) (xs @ [v])"
proof (cases "as = []")
  case True
  with assms have e: "xs = []" "front q0 = None" "back' q0 = None"
    using chain_length [of "heap q0" "front q0" as xs] by (auto simp: queue_ok_def)
  from assms have sz: "Subject_MustGet (size_sbj q0) = int (length xs)"
    by (simp add: queue_ok_def)
  show ?thesis using True e sz
    by (cases "size_sbj q0")
      (auto simp: Queue_Enqueue_def Let_def split_beta queue_ok_def MustGet_Edit
        MustGet_new_Subject new_Subject_not_None MustGet_None)
next
  case False
  from assms have c: "chain (heap q0) (front q0) as xs" "distinct as"
    and b: "back' q0 = Some (last as)" and f: "front q0 \<noteq> None" "xs \<noteq> []"
    and sz: "Subject_MustGet (size_sbj q0) = int (length xs)"
    using False chain_length [of "heap q0" "front q0" as xs] by (auto simp: queue_ok_def)
  have fresh: "length (heap q0) \<notin> set as"
    using chain_bound [OF c(1)] by auto
  note lk = chain_link_last [OF c(1) False c(2), of v]
  show ?thesis using False b f sz fresh c(2) lk
    by (cases "size_sbj q0")
      (auto simp: Queue_Enqueue_def Let_def split_beta queue_ok_def MustGet_Edit
        MustGet_new_Subject new_Subject_not_None MustGet_None)
qed


lemma Dequeue_ok:
  assumes "queue_ok q0 (a # as) (x # xs)"
  shows "\<exists>q1 w1. Queue_Dequeue sched (Some q0) w = (Inr x, Some q1, w1) \<and> queue_ok q1 as xs"
proof -
  from assms have f: "front q0 = Some a" and a: "a < length (heap q0)"
    and x: "node_value (heap q0 ! a) = x"
    and c: "chain (heap q0) (node_next (heap q0 ! a)) as xs" and d: "distinct as"
    and b: "back' q0 = Some (last (a # as))"
    and sz: "Subject_MustGet (size_sbj q0) = int (length (x # xs))"
    by (auto simp: queue_ok_def)
  have nn: "size_sbj q0 \<noteq> None"
  proof
    assume "size_sbj q0 = None"
    with sz show False by (simp add: MustGet_None)
  qed
  show ?thesis
  proof (cases as)
    case Nil
    with c have "node_next (heap q0 ! a) = None" "xs = []" by auto
    with Nil f x nn sz show ?thesis
      by (auto simp: Queue_Dequeue_def Let_def split_beta queue_ok_def MustGet_Edit)
  next
    case (Cons a' as')
    with c obtain x' xs' where xs: "xs = x' # xs'" by (cases xs) auto
    with Cons c have n: "node_next (heap q0 ! a) = Some a'" by auto
    from c d b Cons xs n f x nn sz show ?thesis
      by (auto simp: Queue_Dequeue_def Let_def split_beta queue_ok_def MustGet_Edit)
  qed
qed

lemma Dequeue_empty:
  assumes "queue_ok q0 as []"
  shows "Queue_Dequeue sched (Some q0) w = (Inl ErrEmptyQueue, Some q0, w)"
  using assms by (auto simp: Queue_Dequeue_def queue_ok_def)

lemma Reset_ok: "queue_ok q0 as xs \<Longrightarrow> \<exists>q1. Queue_Reset (Some q0) = Some q1 \<and> queue_ok q1 [] []"
  by (cases as; cases xs) (auto simp: Queue_Reset_def queue_ok_def MustGet_None)

lemma ObserveSize_ok:
  "queue_ok q0 as xs \<Longrightarrow> \<exists>q1. snd (Queue_ObserveSize fn (Some q0)) = Some q1 \<and> queue_ok q1 as xs"
  by (cases fn; cases "size_sbj q0")
    (auto simp: Queue_ObserveSize_def queue_ok_def Subject_Attach_def FromAction_def Let_def
      new_Subject_def Subject_MustGet_def)

lemma queue_ok_Cons:
  assumes "queue_ok q0 as (x # xs)"
  obtains a as' where "as = a # as'"
  using assms chain_length [of "heap q0" "front q0" as "x # xs"]
  by (cases as) (auto simp: queue_ok_def)

lemma enqueue_each_ok:
  "queue_ok q0 as xs \<Longrightarrow>
   \<exists>q1 w1 as'. enqueue_each scheds vs (Some q0) w = (Some q1, w1) \<and> queue_ok q1 as' (xs @ vs)"
proof (induction vs arbitrary: q0 as xs scheds w)
  case Nil
  then show ?case by auto
next
  case (Cons v vs)
  from Enqueue_ok [OF Cons.prems, of "case scheds of [] \<Rightarrow> [] | s # ss \<Rightarrow> s" v w]
  obtain q1 w1 where e: "Queue_Enqueue (case scheds of [] \<Rightarrow> [] | s # ss \<Rightarrow> s) v (Some q0) w = (None, Some q1, w1)"
    and ok: "queue_ok q1 (as @ [length (heap q0)]) (xs @ [v])" by blast
  from Cons.IH [OF ok, of "tl scheds" w1] e show ?case by auto
qed

lemma dequeue_n_ok:
  "queue_ok q0 as (xs @ ys) \<Longrightarrow>
   \<exists>q1 w1 as'. dequeue_n scheds (length xs) (Some q0) w = (map Inr xs, Some q1, w1) \<and>
      queue_ok q1 as' ys"
proof (induction xs arbitrary: q0 as scheds w)
  case Nil
  then show ?case by auto
next
  case (Cons x xs)
  from Cons.prems obtain a as' where as: "as = a # as'"
    using queue_ok_Cons [of q0 as x "xs @ ys"] by auto
  from Dequeue_ok [of q0 a as' x "xs @ ys" "case scheds of [] \<Rightarrow> [] | s # ss \<Rightarrow> s" w] Cons.prems as
  obtain q1 w1 where d: "Queue_Dequeue (case scheds of [] \<Rightarrow> [] | s # ss \<Rightarrow> s) (Some q0) w = (Inr x, Some q1, w1)"
    and ok: "queue_ok q1 as' (xs @ ys)" by auto
  from Cons.IH [OF ok, of "tl scheds" w1] d show ?case by auto
qed

text \<open>
  C3. The queue is first in, first out: when the values \<open>xs\<close> are enqueued one after
  the other into a queue that holds nothing, that many calls of \<^verbatim>\<open>Dequeue\<close> all
  succeed and return exactly \<open>xs\<close> in that order, and the queue is empty again
  afterwards. This holds under every schedule of the observers' goroutines and
  whatever the observers of the size do.
\<close>

theorem Queue_FIFO:
  assumes "queue_ok q0 as []"
  shows "let (queue1, w1) = enqueue_each scheds xs (Some q0) w;
             (rs, queue2, w2) = dequeue_n scheds' (length xs) queue1 w1
         in rs = map Inr xs \<and> fst (Queue_Dequeue sched queue2 w2) = Inl ErrEmptyQueue"
proof -
  from enqueue_each_ok [OF assms, of scheds xs w]
  obtain q1 w1 as1 where e: "enqueue_each scheds xs (Some q0) w = (Some q1, w1)"
    and ok1: "queue_ok q1 as1 (xs @ [])" by auto
  from dequeue_n_ok [OF ok1, of scheds' w1]
  obtain q2 w2 as2 where d: "dequeue_n scheds' (length xs) (Some q1) w1 = (map Inr xs, Some q2, w2)"
    and ok2: "queue_ok q2 as2 []" by auto
  from e d Dequeue_empty [OF ok2, of sched w2] show ?thesis by simp
qed

lemma queue_ok_new: "queue_ok \<lparr>front = None, back' = None, size_sbj = None, heap = []\<rparr> [] []"
  by (simp add: queue_ok_def MustGet_None)

theorem Queue_FIFO_witness:
  "queue_ok \<lparr>front = None, back' = None, size_sbj = None, heap = []\<rparr> [] ([] :: int list) \<and>
   fst (dequeue_n [] (length [10, 20, 30 :: int])
         (fst (enqueue_each [] [10, 20, 30 :: int] new_Queue ()))
         (snd (enqueue_each [] [10, 20, 30 :: int] new_Queue ())))
     = [Inr 10, Inr 20, Inr 30]"
  using Queue_FIFO [OF queue_ok_new, of "[]" "[10, 20, 30 :: int]" "()" "[]" "[]"] queue_ok_new
  by (simp add: new_Queue_def split_beta)

lemma queue_step_ok:
  assumes "queue_ok q0 as xs"
  shows "\<exists>q1 w1 as'. queue_step op (Some q0, w) = (Some q1, w1) \<and> queue_ok q1 as' (spec_contents op xs)"
proof (cases op)
  case (OpEnqueue sched v)
  with Enqueue_ok [OF assms, of sched v w] show ?thesis by auto
next
  case (OpEnqueueMany scheds vs)
  with enqueue_each_ok [OF assms, of scheds vs w] assms show ?thesis
    by (cases vs) (auto simp: Queue_EnqueueMany_def)
next
  case (OpDequeue sched)
  show ?thesis
  proof (cases xs)
    case Nil
    with OpDequeue assms Dequeue_empty [of q0 as sched w] show ?thesis by auto
  next
    case (Cons x xs')
    with assms obtain a as' where "as = a # as'" using queue_ok_Cons [of q0 as x xs'] by auto
    with Cons OpDequeue assms Dequeue_ok [of q0 a as' x xs' sched w] show ?thesis by auto
  qed
next
  case OpReset
  with Reset_ok [OF assms] show ?thesis by auto
next
  case (OpObserveSize fn)
  with ObserveSize_ok [OF assms, of fn] show ?thesis by auto
qed

lemma queue_ops_ok:
  "queue_ok q0 as xs \<Longrightarrow>
   \<exists>q1 w1 as'. fold queue_step ops (Some q0, w) = (Some q1, w1) \<and>
      queue_ok q1 as' (fold spec_contents ops xs)"
proof (induction ops arbitrary: q0 as xs w)
  case Nil
  then show ?case by auto
next
  case (Cons op ops)
  from queue_step_ok [OF Cons.prems, of op w]
  obtain q1 w1 as1 where s: "queue_step op (Some q0, w) = (Some q1, w1)"
    and ok: "queue_ok q1 as1 (spec_contents op xs)" by blast
  from Cons.IH [OF ok, of w1] s show ?case by auto
qed

lemma chain_last_next:
  "chain h p as xs \<Longrightarrow> as \<noteq> [] \<Longrightarrow> node_next (h ! last as) = None"
  by (induction h p as xs rule: chain.induct) (auto split: if_splits)

text \<open>
  C9. After every sequence of \<^verbatim>\<open>Enqueue\<close>, \<^verbatim>\<open>EnqueueMany\<close>, \<^verbatim>\<open>Dequeue\<close>,
  \<^verbatim>\<open>Reset\<close> and \<^verbatim>\<open>ObserveSize\<close> on a new queue, with \<open>xs\<close> the elements the
  queue holds by the specification of these operations: the chain from \<^verbatim>\<open>front\<close>
  visits distinct nodes holding exactly \<open>xs\<close>; \<^verbatim>\<open>front\<close> is nil exactly when \<open>xs\<close>
  is empty; \<^verbatim>\<open>back\<close> is nil exactly when \<open>xs\<close> is empty and is otherwise the last
  node of the chain, whose \<^verbatim>\<open>next\<close> is nil; and \<^verbatim>\<open>Size\<close>, the value of the size
  subject, is the number of elements.
\<close>

theorem Queue_invariant:
  "\<exists>q1 as. fst (fold queue_step ops (new_Queue, w)) = Some q1 \<and>
     (let xs = fold spec_contents ops [] in
        chain (heap q1) (front q1) as xs \<and> distinct as \<and>
        (front q1 = None \<longleftrightarrow> xs = []) \<and>
        (back' q1 = None \<longleftrightarrow> xs = []) \<and>
        (xs \<noteq> [] \<longrightarrow> back' q1 = Some (last as) \<and> node_next (heap q1 ! last as) = None) \<and>
        Queue_Size (Some q1) = int (length xs))"
proof -
  from queue_ops_ok [OF queue_ok_new, of ops w]
  obtain q1 w1 as1 where f: "fold queue_step ops (new_Queue, w) = (Some q1, w1)"
    and ok: "queue_ok q1 as1 (fold spec_contents ops [])"
    unfolding new_Queue_def by blast
  from ok have c: "chain (heap q1) (front q1) as1 (fold spec_contents ops [])"
    by (simp add: queue_ok_def)
  from chain_length [OF c] have l: "as1 = [] \<longleftrightarrow> fold spec_contents ops [] = []" by auto
  from ok l chain_last_next [OF c] f show ?thesis
    by (intro exI [of _ q1] exI [of _ as1]) (auto simp: queue_ok_def Queue_Size_def Let_def)
qed


theorem Queue_invariant_witness:
  "Queue_Size (fst (fold queue_step ops_ex (new_Queue, ()))) = 2 \<and>
   Queue_Peek (fst (fold queue_step ops_ex (new_Queue, ()))) = Inr 4"
  using Queue_invariant [of ops_ex "()"]
  by (simp add: ops_ex_def new_Queue_def Queue_Enqueue_def Queue_Dequeue_def Queue_Reset_def
      Queue_EnqueueMany_def Queue_Size_def Queue_Peek_def Subject_Edit_def Subject_NotifyAll_def
      Subject_MustGet_def new_Subject_def errors_Join_def List.map_filter_def default_int_def
      Let_def split_beta)


section \<open>Properties of Locker\<close>

lemma hasFalse_running: "hasFalse locker_running = ([(IsEmpty, True), (IsRunning, True)], False)"
  by (simp add: hasFalse_def locker_running_def Locker_SetSubject_def NewLocker_def New_def
      FromAction_def Subject_Attach_def Subject_MustGet_def)

lemma hasFalse_stopped: "hasFalse locker_stopped = ([(IsEmpty, True), (IsRunning, False)], True)"
  by (simp add: hasFalse_def locker_stopped_def Locker_SetSubject_def NewLocker_def New_def
      FromAction_def Subject_Attach_def Subject_MustGet_def)

text \<open>
  C1, as stated, fails in both directions. With both conditions true and no change to
  come, \<^verbatim>\<open>DoFunc\<close> does not call \<open>f\<close>: it stays blocked. With \<^verbatim>\<open>IsRunning\<close> false
  it calls \<open>f\<close> at once, with a copy in which \<^verbatim>\<open>IsRunning\<close> maps to false.
\<close>

theorem DoFunc_all_true_counterexample:
  "Locker_DoFunc record_snapshot (Some locker_running) [] [] = Blocks \<and>
   Locker_DoFunc record_snapshot (Some locker_stopped) [] []
     = Returns (None, [[(IsEmpty, True), (IsRunning, False)]])"
  by (simp add: Locker_DoFunc_def hasFalse_running hasFalse_stopped record_snapshot_def)

lemma any_false_iff: "any_false m \<longleftrightarrow> (\<exists>key. (key, False) \<in> set m)"
  by (induction m rule: any_false.induct) auto

lemma hasFalse_snd:
  "snd (hasFalse l) \<longleftrightarrow> (\<exists>(key, subject)\<in>set (subjects l). \<not> Subject_MustGet subject)"
  by (force simp: hasFalse_def any_false_iff Let_def)

lemma DoFunc_loop_leave:
  "snd (hasFalse l) \<Longrightarrow> DoFunc_loop l wakes = Some (fst (hasFalse l))"
  by (cases wakes) (simp_all add: split_beta)

lemma DoFunc_loop_asleep: "\<not> snd (hasFalse l) \<Longrightarrow> DoFunc_loop l [] = None"
  by (simp add: split_beta)

lemma DoFunc_loop_wake:
  "\<not> snd (hasFalse l) \<Longrightarrow> DoFunc_loop l (l1 # wakes) = DoFunc_loop l1 wakes"
  by (simp add: split_beta)

lemma DoFunc_loop_all_true:
  "\<forall>l1\<in>set (l # wakes). \<not> snd (hasFalse l1) \<Longrightarrow> DoFunc_loop l wakes = None"
proof (induction wakes arbitrary: l)
  case Nil
  then show ?case by (simp add: DoFunc_loop_asleep del: DoFunc_loop.simps)
next
  case (Cons l' wakes)
  from Cons.prems have "DoFunc_loop l' wakes = None" by (intro Cons.IH) simp
  with Cons.prems show ?case by (simp add: DoFunc_loop_wake del: DoFunc_loop.simps)
qed

lemma DoFunc_loop_first_false:
  "l # wakes = pre @ l1 # post \<Longrightarrow> \<forall>l2\<in>set pre. \<not> snd (hasFalse l2) \<Longrightarrow> snd (hasFalse l1) \<Longrightarrow>
   DoFunc_loop l wakes = Some (fst (hasFalse l1))"
proof (induction pre arbitrary: l wakes)
  case Nil
  then show ?case by (simp add: DoFunc_loop_leave del: DoFunc_loop.simps)
next
  case (Cons p pre)
  from Cons.prems have l: "l = p" "\<not> snd (hasFalse l)" and w: "wakes = pre @ l1 # post" by auto
  obtain l' wakes' where lw: "pre @ l1 # post = l' # wakes'" by (cases pre) auto
  from Cons.IH [OF lw [symmetric]] Cons.prems
  have "DoFunc_loop l' wakes' = Some (fst (hasFalse l1))" by simp
  with lw w l show ?case by (simp add: DoFunc_loop_wake del: DoFunc_loop.simps)
qed

text \<open>
  C1, amended. On the nil Locker \<^verbatim>\<open>DoFunc\<close> returns the nil-receiver error and does
  not call \<open>f\<close>. Otherwise it blocks as long as every registered condition is true:
  when that is so at the call and at every wake-up, it never calls \<open>f\<close>. At the first
  of these moments at which some registered condition is false it calls \<open>f\<close>, once,
  with the copy of all registered conditions taken at that moment, in which at least
  one key maps to false, and returns what \<open>f\<close> returns, unchanged.
\<close>

theorem DoFunc_waits_for_false:
  "Locker_DoFunc f None wakes w = Returns (Some ErrNilReceiver, w) \<and>
   ((\<forall>l1\<in>set (l # wakes). \<forall>(key, subject)\<in>set (subjects l1). Subject_MustGet subject) \<longrightarrow>
      Locker_DoFunc f (Some l) wakes w = Blocks) \<and>
   (\<forall>pre l1 post.
      l # wakes = pre @ l1 # post \<and>
      (\<forall>l2\<in>set pre. \<forall>(key, subject)\<in>set (subjects l2). Subject_MustGet subject) \<and>
      (\<exists>(key, subject)\<in>set (subjects l1). \<not> Subject_MustGet subject) \<longrightarrow>
      Locker_DoFunc f (Some l) wakes w
        = Returns (f (map (\<lambda>(key, subject). (key, Subject_MustGet subject)) (subjects l1)) w) \<and>
      (\<exists>key. (key, False) \<in> set (map (\<lambda>(key, subject). (key, Subject_MustGet subject)) (subjects l1))))"
proof (intro conjI allI impI)
  show "Locker_DoFunc f None wakes w = Returns (Some ErrNilReceiver, w)"
    by (simp add: Locker_DoFunc_def)
next
  assume "\<forall>l1\<in>set (l # wakes). \<forall>(key, subject)\<in>set (subjects l1). Subject_MustGet subject"
  then have "\<forall>l1\<in>set (l # wakes). \<not> snd (hasFalse l1)"
    unfolding hasFalse_snd by blast
  from DoFunc_loop_all_true [OF this] show "Locker_DoFunc f (Some l) wakes w = Blocks"
    by (simp add: Locker_DoFunc_def)
next
  fix pre l1 post
  assume a: "l # wakes = pre @ l1 # post \<and>
      (\<forall>l2\<in>set pre. \<forall>(key, subject)\<in>set (subjects l2). Subject_MustGet subject) \<and>
      (\<exists>(key, subject)\<in>set (subjects l1). \<not> Subject_MustGet subject)"
  then have p: "\<forall>l2\<in>set pre. \<not> snd (hasFalse l2)" and f: "snd (hasFalse l1)"
    unfolding hasFalse_snd by blast+
  from a have e: "l # wakes = pre @ l1 # post" by simp
  from DoFunc_loop_first_false [OF e p f]
  show "Locker_DoFunc f (Some l) wakes w
        = Returns (f (map (\<lambda>(key, subject). (key, Subject_MustGet subject)) (subjects l1)) w)"
    by (simp add: Locker_DoFunc_def hasFalse_def Let_def)
  from f show "\<exists>key. (key, False) \<in> set (map (\<lambda>(key, subject). (key, Subject_MustGet subject)) (subjects l1))"
    by (simp add: hasFalse_def Let_def any_false_iff)
qed


lemma subjects_running:
  "map (\<lambda>(key, subject). (key, Subject_MustGet subject)) (subjects locker_running)
     = [(IsEmpty, True), (IsRunning, True)]"
  using hasFalse_running by (simp add: hasFalse_def Let_def)

lemma subjects_stopped:
  "map (\<lambda>(key, subject). (key, Subject_MustGet subject)) (subjects locker_stopped)
     = [(IsEmpty, True), (IsRunning, False)]"
  using hasFalse_stopped by (simp add: hasFalse_def Let_def)

lemma all_true_running:
  "\<forall>(key, subject)\<in>set (subjects locker_running). Subject_MustGet subject"
  by (simp add: locker_running_def Locker_SetSubject_def NewLocker_def New_def
      FromAction_def Subject_Attach_def Subject_MustGet_def)

lemma some_false_stopped:
  "\<exists>(key, subject)\<in>set (subjects locker_stopped). \<not> Subject_MustGet subject"
  by (simp add: locker_stopped_def Locker_SetSubject_def NewLocker_def New_def
      FromAction_def Subject_Attach_def Subject_MustGet_def)

theorem DoFunc_waits_for_false_witness:
  "Locker_DoFunc record_snapshot (Some locker_running) [locker_running, locker_stopped] []
     = Returns (None, [[(IsEmpty, True), (IsRunning, False)]]) \<and>
   Locker_DoFunc record_snapshot (Some locker_running) [locker_running] [] = Blocks"
proof -
  note t = DoFunc_waits_for_false [of record_snapshot _ "[]" locker_running]
  have "Locker_DoFunc record_snapshot (Some locker_running) [locker_running, locker_stopped] []
          = Returns (record_snapshot
              (map (\<lambda>(key, subject). (key, Subject_MustGet subject)) (subjects locker_stopped)) [])"
    using t [of "[locker_running, locker_stopped]"] all_true_running some_false_stopped
    by (elim conjE allE [of _ "[locker_running, locker_running]"] allE [of _ locker_stopped]
        allE [of _ "[]"]) simp
  moreover have "Locker_DoFunc record_snapshot (Some locker_running) [locker_running] [] = Blocks"
    using t [of "[locker_running]"] all_true_running by simp
  ultimately show ?thesis by (simp add: subjects_stopped record_snapshot_def)
qed


section \<open>Properties of Buffer\<close>

text \<open>
  C7. \<^verbatim>\<open>Send\<close> returns the nil-receiver error on the nil Buffer, and on a Buffer
  the already-closed error exactly when \<^verbatim>\<open>sendTo\<close> is nil; it returns no other
  error, and returns nil when the inbound loop takes the message from the open
  channel. \<^verbatim>\<open>Receive\<close> returns the nil-receiver error on the nil Buffer, and on a
  Buffer the already-closed error exactly when \<^verbatim>\<open>receiveFrom\<close> is nil or closed
  (an unbuffered channel that is closed holds nothing); it returns no other error, and
  returns the message handed over on the open channel. (A call that blocks or panics
  returns nothing.)
\<close>

theorem Send_Receive_errors:
  "Buffer_Send msg None ready = Returns (Some ErrNilReceiver) \<and>
   (Buffer_Send msg (Some b0) ready = Returns (Some ErrAlreadyClosed) \<longleftrightarrow> sendTo b0 = None) \<and>
   (\<forall>e. Buffer_Send msg b ready = Returns (Some e) \<longrightarrow>
      (e = ErrNilReceiver \<and> b = None) \<or> (e = ErrAlreadyClosed \<and> b \<noteq> None)) \<and>
   (\<forall>c. sendTo b0 = Some c \<and> \<not> closed c \<and> ready \<longrightarrow> Buffer_Send msg (Some b0) ready = Returns None) \<and>
   Buffer_Receive None offered = Returns (Inl ErrNilReceiver) \<and>
   (Buffer_Receive (Some b0) offered = Returns (Inl ErrAlreadyClosed) \<longleftrightarrow>
      receiveFrom b0 = None \<or> (\<exists>c. receiveFrom b0 = Some c \<and> closed c)) \<and>
   (\<forall>e. Buffer_Receive b offered = Returns (Inl e) \<longrightarrow>
      (e = ErrNilReceiver \<and> b = None) \<or> (e = ErrAlreadyClosed \<and> b \<noteq> None)) \<and>
   (\<forall>c v. receiveFrom b0 = Some c \<and> \<not> closed c \<and> offered = Some v \<longrightarrow>
      Buffer_Receive (Some b0) offered = Returns (Inr v))"
  by (auto simp: Buffer_Send_def Buffer_Receive_def chan_send_def chan_recv_def
      split: option.splits if_splits outcome.splits)

theorem Send_Receive_errors_witness:
  "Buffer_Send (5 :: int) (Some new_Buffer) True = Returns (Some ErrAlreadyClosed) \<and>
   Buffer_Send (5 :: int) (Some (new_Buffer\<lparr>sendTo := make_chan\<rparr>)) True = Returns None \<and>
   Buffer_Receive (Some (new_Buffer\<lparr>receiveFrom := Some \<lparr>closed = True\<rparr>\<rparr>)) (None :: int option)
     = Returns (Inl ErrAlreadyClosed) \<and>
   Buffer_Receive (Some (new_Buffer\<lparr>receiveFrom := make_chan\<rparr>)) (Some (5 :: int))
     = Returns (Inr 5)"
  using Send_Receive_errors [of "5 :: int" True new_Buffer "Some new_Buffer" "None :: int option"]
    Send_Receive_errors [of "5 :: int" True "new_Buffer\<lparr>sendTo := make_chan\<rparr>" None "None :: int option"]
    Send_Receive_errors [of "5 :: int" True "new_Buffer\<lparr>receiveFrom := Some \<lparr>closed = True\<rparr>\<rparr>" None "None :: int option"]
    Send_Receive_errors [of "5 :: int" True "new_Buffer\<lparr>receiveFrom := make_chan\<rparr>" None "Some (5 :: int)"]
  by (simp add: new_Buffer_def make_chan_def)

lemma Start_started: "locker b0 \<noteq> None \<Longrightarrow> Buffer_Start (Some b0) = (None, Some b0, [])"
  by (simp add: Buffer_Start_def)

lemma Start_fresh:
  "locker b0 = None \<Longrightarrow>
   \<exists>b1. Buffer_Start (Some b0) = (None, Some b1, [listenForIncomingMessages, sendMessagesFromBuffer]) \<and>
     locker b1 \<noteq> None \<and> wg b1 = wg b0 + 2"
  by (simp add: Buffer_Start_def Queue_ObserveSize_def new_Queue_def FromAction_def
      Subject_Attach_def new_Subject_def Let_def)

text \<open>
  C8. \<^verbatim>\<open>Start\<close> on the nil Buffer returns the nil-receiver error. On every Buffer,
  \<^verbatim>\<open>Start\<close> returns nil and leaves a Buffer on which a second \<^verbatim>\<open>Start\<close> returns
  nil, changes nothing (queue, locker, channels, wait group) and starts no goroutine;
  the first call on a Buffer that was not started starts the one pair of loops. A
  Buffer counts as started while its locker is there, and on each such Buffer
  \<^verbatim>\<open>Start\<close> does nothing.
\<close>

theorem Start_idempotent:
  "Buffer_Start (None :: 'v Buffer option) = (Some ErrNilReceiver, None, []) \<and>
   (let (err1, b1, gs1) = Buffer_Start (Some (b0 :: 'v Buffer))
    in err1 = None \<and> b1 \<noteq> None \<and> Buffer_Start b1 = (None, b1, []) \<and>
       (locker b0 = None \<longrightarrow> gs1 = [listenForIncomingMessages, sendMessagesFromBuffer]) \<and>
       (locker b0 \<noteq> None \<longrightarrow> Buffer_Start (Some b0) = (None, Some b0, [])))"
proof (cases "locker b0 = None")
  case True
  from Start_fresh [OF True] obtain b1 where
    "Buffer_Start (Some b0) = (None, Some b1, [listenForIncomingMessages, sendMessagesFromBuffer])"
    "locker b1 \<noteq> None" by blast
  with True show ?thesis by (simp add: Start_started) (simp add: Buffer_Start_def)
next
  case False
  then show ?thesis by (simp add: Start_started) (simp add: Buffer_Start_def)
qed

theorem Start_idempotent_witness:
  "fst (snd (Buffer_Start (fst (snd (Buffer_Start (Some (new_Buffer :: int Buffer))))))) =
     fst (snd (Buffer_Start (Some (new_Buffer :: int Buffer)))) \<and>
   snd (snd (Buffer_Start (Some (new_Buffer :: int Buffer)))) = [listenForIncomingMessages, sendMessagesFromBuffer] \<and>
   snd (snd (Buffer_Start (fst (snd (Buffer_Start (Some (new_Buffer :: int Buffer))))))) = []"
  using Start_idempotent [of "new_Buffer :: int Buffer"]
  by (simp add: split_beta new_Buffer_def)

lemma Peek_ok: "queue_ok q0 as (x # xs) \<Longrightarrow> Queue_Peek (Some q0) = Inr x"
  by (cases as) (auto simp: Queue_Peek_def queue_ok_def)

lemma Peek_empty: "queue_ok q0 as [] \<Longrightarrow> Queue_Peek (Some q0) = Inl ErrEmptyQueue"
  by (auto simp: Queue_Peek_def queue_ok_def)

text \<open>
  Enqueues by the inbound loop between the \<^verbatim>\<open>Peek\<close> and the \<^verbatim>\<open>Dequeue\<close> add at
  the back of the queue and leave its head alone.
\<close>

lemma interfere_enqueues:
  assumes "q b0 = Some q0" and "queue_ok q0 as xs" and "ConcurrentReset \<notin> set env"
  shows "\<exists>q1 as1. q (interfere env b0) = Some q1 \<and> queue_ok q1 as1 (xs @ enqueued env) \<and>
           sendTo (interfere env b0) = sendTo b0 \<and>
           receiveFrom (interfere env b0) = receiveFrom b0 \<and> wg (interfere env b0) = wg b0"
  using assms
proof (induction env arbitrary: b0 q0 as xs)
  case Nil
  then show ?case by auto
next
  case (Cons e env)
  then obtain sched msg where e: "e = ConcurrentEnqueue sched msg" by (cases e) auto
  from Enqueue_ok [OF Cons.prems(2), of sched msg "locker b0"] Cons.prems(1)
  obtain q1 w1 where en: "Queue_Enqueue sched msg (q b0) (locker b0) = (None, Some q1, w1)"
    and ok: "queue_ok q1 (as @ [length (heap q0)]) (xs @ [msg])" by auto
  from en have q1: "q (listen_round sched msg b0) = Some q1"
    and same: "sendTo (listen_round sched msg b0) = sendTo b0"
      "receiveFrom (listen_round sched msg b0) = receiveFrom b0"
      "wg (listen_round sched msg b0) = wg b0"
    by (simp_all add: listen_round_def)
  from Cons.prems(3) have "ConcurrentReset \<notin> set env" by simp
  from Cons.IH [OF q1 ok this] e same show ?case by auto
qed

text \<open>
  As long as no \<^verbatim>\<open>Reset\<close> comes between the \<^verbatim>\<open>Peek\<close> and the \<^verbatim>\<open>Dequeue\<close>,
  whatever the inbound loop enqueues meanwhile, \<^verbatim>\<open>sendSingleMessage\<close> follows the
  protocol on a queue that holds \<open>xs\<close>: with nothing in the queue it reports empty and
  changes nothing; otherwise \<^verbatim>\<open>Peek\<close> yields the head of \<open>xs\<close>; when no receiver is
  ready (or the channel is nil) it changes nothing itself; and when a receiver is ready
  on the open channel, the message that goes out is the head of \<open>xs\<close> and the queue
  then holds the rest of \<open>xs\<close> and what was enqueued meanwhile, so the element removed
  is the one that was sent.
\<close>

lemma sendSingleMessage_without_Reset:
  assumes "q b0 = Some q0" and "queue_ok q0 as xs" and "ConcurrentReset \<notin> set env"
  shows
    "(xs = [] \<longrightarrow> sendSingleMessage sched env ready b0 = Returns ((True, True), b0, None)) \<and>
     (xs \<noteq> [] \<longrightarrow> Queue_Peek (q b0) = Inr (hd xs)) \<and>
     (xs \<noteq> [] \<and> (receiveFrom b0 = None \<or> (\<exists>c. receiveFrom b0 = Some c \<and> \<not> closed c \<and> \<not> ready)) \<longrightarrow>
        sendSingleMessage sched env ready b0 = Returns ((False, False), interfere env b0, None)) \<and>
     (xs \<noteq> [] \<and> (\<exists>c. receiveFrom b0 = Some c \<and> \<not> closed c \<and> ready) \<longrightarrow>
        (\<exists>b1 q1 as1. sendSingleMessage sched env ready b0 = Returns ((False, True), b1, Some (hd xs)) \<and>
           q b1 = Some q1 \<and> queue_ok q1 as1 (tl xs @ enqueued env) \<and>
           sendTo b1 = sendTo b0 \<and> receiveFrom b1 = receiveFrom b0 \<and> wg b1 = wg b0))"
proof (cases xs)
  case Nil
  with assms Peek_empty [of q0 as] show ?thesis
    by (simp add: sendSingleMessage_def)
next
  case (Cons x xs')
  from assms Cons have p: "Queue_Peek (q b0) = Inr x"
    using Peek_ok [of q0 as x xs'] by simp
  let ?b = "interfere env b0"
  from interfere_enqueues [OF assms] Cons obtain q1 as1 where
    q1: "q ?b = Some q1" and ok1: "queue_ok q1 as1 (x # xs' @ enqueued env)"
    and same: "sendTo ?b = sendTo b0" "receiveFrom ?b = receiveFrom b0" "wg ?b = wg b0"
    by auto
  from ok1 obtain a as' where as: "as1 = a # as'"
    using queue_ok_Cons [of q1 as1 x "xs' @ enqueued env"] by auto
  from Dequeue_ok [of q1 a as' x "xs' @ enqueued env" sched "locker ?b"] ok1 as q1
  obtain q2 l2 where d: "Queue_Dequeue sched (q ?b) (locker ?b) = (Inr x, Some q2, l2)"
    and ok2: "queue_ok q2 as' (xs' @ enqueued env)" by auto
  have no: "receiveFrom b0 = None \<or> (\<exists>c. receiveFrom b0 = Some c \<and> \<not> closed c \<and> \<not> ready) \<Longrightarrow>
      sendSingleMessage sched env ready b0 = Returns ((False, False), ?b, None)"
    using p same by (auto simp: sendSingleMessage_def chan_try_send_def Let_def)
  have yes: "\<exists>c. receiveFrom b0 = Some c \<and> \<not> closed c \<and> ready \<Longrightarrow>
      sendSingleMessage sched env ready b0
        = Returns ((False, True), ?b\<lparr>q := Some q2, locker := l2\<rparr>, Some x)"
    using p d same by (auto simp: sendSingleMessage_def chan_try_send_def Let_def)
  from Cons p no yes ok2 same show ?thesis by auto
qed

lemmas eval_defs =
  Buffer_Start_def new_Buffer_def Queue_ObserveSize_def new_Queue_def FromAction_def
  Subject_Attach_def new_Subject_def Locker_SetSubject_def NewLocker_def New_def make_chan_def
  listen_round_def Queue_Enqueue_def Queue_Dequeue_def Queue_Peek_def Queue_Size_def Queue_Reset_def
  Subject_Edit_def Subject_Set_def Subject_NotifyAll_def Subject_MustGet_def
  size_observer_def Locker_ChangeValue_def Locker_Get_def errors_Join_def List.map_filter_def
  default_int_def default_bool_def Buffer_Reset_def sendSingleMessage_def chan_try_send_def
  Let_def split_beta

lemma buffer_two_q:
  "q buffer_two = Some \<lparr>front = Some 0, back' = Some 1,
      size_sbj = Some \<lparr>state = 2, observers = [size_observer]\<rparr>,
      heap = [\<lparr>node_value = 10, node_next = Some 1\<rparr>, \<lparr>node_value = 20, node_next = None\<rparr>]\<rparr>"
  by (simp add: buffer_two_def buffer_started_def eval_defs)

lemma buffer_two_ok:
  "queue_ok \<lparr>front = Some 0, back' = Some (Suc 0),
      size_sbj = Some \<lparr>state = 2, observers = [size_observer]\<rparr>,
      heap = [\<lparr>node_value = 10, node_next = Some (Suc 0)\<rparr>, \<lparr>node_value = 20 :: int, node_next = None\<rparr>]\<rparr>
     [0, 1] [10, 20]"
  by (simp add: queue_ok_def Subject_MustGet_def)

lemma sendSingleMessage_without_Reset_example:
  "sendSingleMessage [] [] False buffer_two = Returns ((False, False), buffer_two, None) \<and>
   (\<exists>b1. sendSingleMessage [] [ConcurrentEnqueue [] 30] True buffer_two
            = Returns ((False, True), b1, Some 10) \<and>
      Queue_Peek (q b1) = Inr 20 \<and> Queue_Size (q b1) = 2)"
proof -
  have r: "receiveFrom buffer_two = Some \<lparr>closed = False\<rparr>"
    by (simp add: buffer_two_def buffer_started_def eval_defs)
  note q2 = buffer_two_q [simplified]
  from sendSingleMessage_without_Reset [OF q2 buffer_two_ok, of "[]" "[]" False] r
  have 1: "sendSingleMessage [] [] False buffer_two = Returns ((False, False), buffer_two, None)"
    by simp
  from sendSingleMessage_without_Reset [OF q2 buffer_two_ok, of "[ConcurrentEnqueue [] 30]" "[]" True] r
  obtain b1 q1 as1 where
    s: "sendSingleMessage [] [ConcurrentEnqueue [] 30] True buffer_two
          = Returns ((False, True), b1, Some 10)"
    and q1: "q b1 = Some q1" and ok: "queue_ok q1 as1 [20, 30]" by auto
  from Peek_ok [OF ok] q1 have "Queue_Peek (q b1) = Inr 20" by simp
  moreover from ok q1 have "Queue_Size (q b1) = 2" by (simp add: Queue_Size_def queue_ok_def)
  ultimately show ?thesis using 1 s by blast
qed

text \<open>
  C4 says that what \<^verbatim>\<open>sendSingleMessage\<close> removes after a successful send is the
  element that was at the head. The code reads the head with \<^verbatim>\<open>Peek\<close> and removes
  with a separate \<^verbatim>\<open>Dequeue\<close>, and a \<^verbatim>\<open>Reset\<close> in between breaks the protocol. On
  the Buffer that holds 10 and 20, with a receiver ready: \<^verbatim>\<open>Peek\<close> yields 10; then
  \<^verbatim>\<open>Buffer.Reset\<close> empties the queue and the inbound loop enqueues 30; 10 is sent, the
  \<^verbatim>\<open>Dequeue\<close> removes 30, and the call reports success and leaves an empty queue, so
  30 is lost without having been sent. With the \<^verbatim>\<open>Reset\<close> alone, 10 is sent, the
  \<^verbatim>\<open>Dequeue\<close> finds nothing, and the call reports that nothing was sent.
\<close>

theorem sendSingleMessage_Reset_in_between:
  "Queue_Peek (q buffer_two) = Inr 10 \<and>
   Queue_Peek (q (interfere [ConcurrentReset, ConcurrentEnqueue [] 30] buffer_two)) = Inr 30 \<and>
   (\<exists>b1. sendSingleMessage [] [ConcurrentReset, ConcurrentEnqueue [] 30] True buffer_two
            = Returns ((False, True), b1, Some 10) \<and>
      Queue_Peek (q b1) = Inl ErrEmptyQueue \<and> Queue_Size (q b1) = 0) \<and>
   (\<exists>b1. sendSingleMessage [] [ConcurrentReset] True buffer_two
            = Returns ((True, False), b1, Some 10) \<and>
      Queue_Peek (q b1) = Inl ErrEmptyQueue)"
  by (simp add: buffer_two_def buffer_started_def eval_defs)


subsection \<open>IsEmpty and the size of the queue\<close>

lemma interleave_single: "interleave cs [g] = [g]"
  by (cases cs) simp_all

lemma size_observer_sets:
  assumes "map_of (subjects l0) IsEmpty = Some (Some s)"
  shows "\<exists>l1 s1. snd (size_observer n (Some l0)) = Some l1 \<and>
           map_of (subjects l1) IsEmpty = Some (Some s1) \<and> state s1 = (n = 0)"
  using assms
  by (simp add: size_observer_def Locker_ChangeValue_def Subject_Set_def split_beta Let_def
      update_conv')

lemma notify_size:
  assumes "observers sz = [size_observer]" and "map_of (subjects l0) IsEmpty = Some (Some s)"
  shows "\<exists>l1 s1. snd (Subject_NotifyAll sched (Some sz) (Some l0)) = Some l1 \<and>
           map_of (subjects l1) IsEmpty = Some (Some s1) \<and> state s1 = (state sz = 0)"
  using assms size_observer_sets [OF assms(2), of "state sz"]
  by (simp add: Subject_NotifyAll_def interleave_single split_beta Let_def)

lemma listen_round_mirrors:
  assumes "buffer_ok b0 xs"
  shows "buffer_ok (listen_round sched msg b0) (xs @ [msg])"
proof -
  from assms obtain q0 as sz l0 s where
    q: "q b0 = Some q0" and ok: "queue_ok q0 as xs" and sz: "size_sbj q0 = Some sz"
    and ob: "observers sz = [size_observer]" and l: "locker b0 = Some l0"
    and m: "map_of (subjects l0) IsEmpty = Some (Some s)"
    unfolding buffer_ok_def by blast
  from Enqueue_ok [OF ok, of sched msg "Some l0"] obtain q1 w1 where
    e: "Queue_Enqueue sched msg (Some q0) (Some l0) = (None, Some q1, w1)"
    and ok1: "queue_ok q1 (as @ [length (heap q0)]) (xs @ [msg])" by blast
  let ?sz1 = "sz\<lparr>state := state sz + 1\<rparr>"
  from e sz have s1: "size_sbj q1 = Some ?sz1"
    and w1: "w1 = snd (Subject_NotifyAll sched (Some ?sz1) (Some l0))"
    by (auto simp: Queue_Enqueue_def Edit_Some Let_def split: option.splits)
  from ok sz have n: "state sz = int (length xs)"
    by (simp add: queue_ok_def Subject_MustGet_def)
  from notify_size [of ?sz1 l0 s sched] ob m w1 n obtain l1 s1 where
    "w1 = Some l1" "map_of (subjects l1) IsEmpty = Some (Some s1)" "state s1 = False"
    by auto
  with q l e ok1 s1 ob show ?thesis
    unfolding buffer_ok_def listen_round_def by auto
qed

lemma interfere_mirrors:
  "buffer_ok b0 xs \<Longrightarrow> ConcurrentReset \<notin> set env \<Longrightarrow>
   buffer_ok (interfere env b0) (xs @ enqueued env)"
proof (induction env arbitrary: b0 xs)
  case Nil
  then show ?case by simp
next
  case (Cons e env)
  then obtain sched msg where e: "e = ConcurrentEnqueue sched msg" by (cases e) auto
  from Cons.prems have "ConcurrentReset \<notin> set env" by simp
  from Cons.IH [OF listen_round_mirrors [OF Cons.prems(1), of sched msg] this] e
  show ?case by simp
qed

lemma sendSingleMessage_mirrors:
  assumes "buffer_ok b0 xs" and "ConcurrentReset \<notin> set env"
    and "sendSingleMessage sched env ready b0 = Returns (r, b1, sent)"
  shows "buffer_ok b1
           (if xs = [] then [] else if sent = None then xs @ enqueued env
            else tl (xs @ enqueued env))"
proof (cases xs)
  case Nil
  from assms(1) obtain q0 as where "q b0 = Some q0" "queue_ok q0 as xs"
    unfolding buffer_ok_def by blast
  with Nil Peek_empty [of q0 as] assms(3) have "b1 = b0"
    by (simp add: sendSingleMessage_def)
  with Nil assms(1) show ?thesis by simp
next
  case (Cons x xs')
  let ?b = "interfere env b0"
  define ys where "ys = xs' @ enqueued env"
  from assms(1) obtain q0 as where "q b0 = Some q0" "queue_ok q0 as xs"
    unfolding buffer_ok_def by blast
  with Cons have p: "Queue_Peek (q b0) = Inr x"
    using Peek_ok [of q0 as x xs'] by simp
  from interfere_mirrors [OF assms(1,2)] Cons have bok: "buffer_ok ?b (x # ys)"
    by (simp add: ys_def)
  show ?thesis
  proof (cases "sent = None")
    case True
    with assms(3) p have "b1 = ?b"
      by (auto simp: sendSingleMessage_def split_beta Let_def
          split: sum.splits outcome.splits bool.splits if_splits)
    with True Cons bok show ?thesis by (simp add: ys_def)
  next
    case False
    from bok obtain q1 as1 sz l0 s where
      q: "q ?b = Some q1" and ok: "queue_ok q1 as1 (x # ys)" and sz: "size_sbj q1 = Some sz"
      and ob: "observers sz = [size_observer]" and l: "locker ?b = Some l0"
      and m: "map_of (subjects l0) IsEmpty = Some (Some s)"
      unfolding buffer_ok_def by blast
    from ok obtain a as' where as: "as1 = a # as'" using queue_ok_Cons [of q1 as1 x ys] by auto
    from Dequeue_ok [of q1 a as' x ys sched "Some l0"] ok as obtain q2 w2 where
      d: "Queue_Dequeue sched (Some q1) (Some l0) = (Inr x, Some q2, w2)"
      and ok2: "queue_ok q2 as' ys" by auto
    let ?sz1 = "sz\<lparr>state := state sz - 1\<rparr>"
    from d sz ok as have s2: "size_sbj q2 = Some ?sz1"
      and w2: "w2 = snd (Subject_NotifyAll sched (Some ?sz1) (Some l0))"
      by (auto simp: Queue_Dequeue_def Edit_Some Let_def queue_ok_def split: option.splits)
    from ok sz have n: "state sz = int (length ys) + 1"
      by (simp add: queue_ok_def Subject_MustGet_def)
    from notify_size [of ?sz1 l0 s sched] ob m w2 n obtain l1 s1 where
      l1: "w2 = Some l1" "map_of (subjects l1) IsEmpty = Some (Some s1)" "state s1 = (ys = [])"
      by auto
    from False assms(3) p q l d have "b1 = ?b\<lparr>q := Some q2, locker := w2\<rparr>"
      by (auto simp: sendSingleMessage_def Let_def split: outcome.splits bool.splits)
    with ok2 s2 ob l1 have "buffer_ok b1 ys"
      unfolding buffer_ok_def by auto
    with False Cons show ?thesis by (auto simp: ys_def)
  qed
qed

lemma Start_mirrors:
  assumes "locker b0 = None"
  shows "\<exists>b1. fst (snd (Buffer_Start (Some b0))) = Some b1 \<and> buffer_ok b1 []"
  using assms
  by (simp add: buffer_ok_def Buffer_Start_def Queue_ObserveSize_def new_Queue_def FromAction_def
      Subject_Attach_def new_Subject_def Locker_SetSubject_def NewLocker_def New_def
      queue_ok_def Subject_MustGet_def default_int_def Let_def)

lemma buffer_ok_mirror:
  "buffer_ok b0 xs \<Longrightarrow>
   Locker_Get IsEmpty (locker b0) = (Queue_Size (q b0) = 0, None) \<and> Queue_Size (q b0) = int (length xs)"
  by (auto simp: buffer_ok_def Locker_Get_def Queue_Size_def queue_ok_def Subject_MustGet_def)

text \<open>
  C2 says that the condition \<^verbatim>\<open>IsEmpty\<close> of a started Buffer is true exactly when
  \<^verbatim>\<open>Size\<close> is 0, after \<^verbatim>\<open>Enqueue\<close>, \<^verbatim>\<open>Dequeue\<close> and \<^verbatim>\<open>Reset\<close> alike. The
  lemmas above show it for \<^verbatim>\<open>Start\<close>, for the inbound loop's \<^verbatim>\<open>Enqueue\<close> and for
  the \<^verbatim>\<open>Dequeue\<close> of \<^verbatim>\<open>sendSingleMessage\<close>. \<^verbatim>\<open>Reset\<close> breaks it: it drops the
  size subject together with the observer \<^verbatim>\<open>Start\<close> attached and notifies nobody.
  On the Buffer that was started and has taken 10 and 20, \<^verbatim>\<open>IsEmpty\<close> is false and
  the size is 2; after \<^verbatim>\<open>Reset\<close> the size is 0 and \<^verbatim>\<open>IsEmpty\<close> is still false; and
  when the Buffer then takes 30 and hands it on, the size is 0 again and \<^verbatim>\<open>IsEmpty\<close>
  is false as before, the new size subject having no observer.
\<close>

theorem Reset_leaves_IsEmpty_stale:
  "Locker_Get IsEmpty (locker buffer_started) = (True, None) \<and>
   Queue_Size (q buffer_started) = 0 \<and>
   Locker_Get IsEmpty (locker buffer_two) = (False, None) \<and>
   Queue_Size (q buffer_two) = 2 \<and>
   (\<exists>b3. Buffer_Reset (Some buffer_two) = Some b3 \<and>
      Locker_Get IsEmpty (locker b3) = (False, None) \<and> Queue_Size (q b3) = 0 \<and>
      Queue_Peek (q b3) = Inl ErrEmptyQueue \<and>
      (\<exists>b5. sendSingleMessage [] [] True (listen_round [] 30 b3) = Returns ((False, True), b5, Some 30) \<and>
         Locker_Get IsEmpty (locker b5) = (False, None) \<and> Queue_Size (q b5) = 0))"
  by (simp add: buffer_two_def buffer_started_def eval_defs)

end
